theory Spec2Isabelle
  imports Main
begin

section \<open>Python strings\<close>

text \<open>
  A Python \<open>str\<close> is a sequence of Unicode code points, so it is modelled as a list of
  code points (natural numbers), not as a list of bytes. \<open>str_of\<close> embeds an ASCII
  literal of the source.
\<close>

type_synonym codepoint = nat
type_synonym pystr = "codepoint list"

definition str_of :: "string \<Rightarrow> pystr" where
  "str_of s = map of_char s"

text \<open>
  \<open>str.strip()\<close> without an argument removes the code points for which \<open>str.isspace\<close>
  holds, first from the left and then from the right of what is left. The whitespace
  code points of CPython are U+0009..U+000D, U+001C..U+0020, U+0085, U+00A0, U+1680,
  U+2000..U+200A, U+2028, U+2029, U+202F, U+205F and U+3000.
\<close>

definition isspace :: "codepoint \<Rightarrow> bool" where
  "isspace c \<longleftrightarrow>
     (9 \<le> c \<and> c \<le> 13) \<or> (28 \<le> c \<and> c \<le> 32) \<or> c = 133 \<or> c = 160 \<or> c = 5760 \<or>
     (8192 \<le> c \<and> c \<le> 8202) \<or> c = 8232 \<or> c = 8233 \<or> c = 8239 \<or> c = 8287 \<or>
     c = 12288"

definition lstrip :: "pystr \<Rightarrow> pystr" where
  "lstrip s = dropWhile isspace s"

definition rstrip :: "pystr \<Rightarrow> pystr" where
  "rstrip s = rev (dropWhile isspace (rev s))"

definition strip :: "pystr \<Rightarrow> pystr" where
  "strip s = rstrip (lstrip s)"

section \<open>The greeter\<close>

text \<open>
  \<^verbatim>\<open>
  def greet(name: str = "World") -> str:
      safe = name.strip() if name is not None else "World"
      return f"Hello, {safe}!"
  \<close>
  The parameter holds a string or \<open>None\<close> (the body tests for it), which is the
  \<open>option\<close> type. A call site either passes a value or leaves the argument out, and
  then the parameter is bound to its default, the string \<open>"World"\<close>.
\<close>

definition greet :: "pystr option \<Rightarrow> pystr" where
  "greet name =
     (let safe = (case name of Some s \<Rightarrow> strip s | None \<Rightarrow> str_of ''World'')
      in str_of ''Hello, '' @ safe @ str_of ''!'')"

datatype call = NoArgument | Argument "pystr option"

fun call_greet :: "call \<Rightarrow> pystr" where
  "call_greet NoArgument = greet (Some (str_of ''World''))"
| "call_greet (Argument v) = greet v"

section \<open>The call in a running process\<close>

text \<open>
  Python does not check the annotation \<open>name: str\<close>: the parameter can hold any object, and
  \<open>name.strip()\<close> looks the method up on it. The objects that reach \<open>greet\<close> in this
  program are \<open>None\<close>, a string, and (from the argument parser) a list of strings; only a
  string has the method, the lookup on the others raises \<open>AttributeError\<close>. The other
  exceptions are those the argument parser can raise.
\<close>

datatype exc = IndexError | KeyError | ValueError | AttributeError

datatype "value" = NoneValue | Str pystr | Strs "pystr list"

fun strip_method :: "value \<Rightarrow> exc + pystr" where
  "strip_method (Str s) = Inr (strip s)"
| "strip_method NoneValue = Inl AttributeError"
| "strip_method (Strs xs) = Inl AttributeError"

text \<open>
  What a call can read and change besides its argument is the state of the process. Of
  that state this program uses the two output streams. A piece of output is a text
  written by \<open>print\<close>, the usage line, the help text or the error line of the argument
  parser, or the traceback of an uncaught exception.
\<close>

datatype action = HelpAction | StoreName

datatype message =
    UnrecognizedArguments "pystr list"
  | IgnoredExplicitArgument pystr
  | AmbiguousOption pystr "pystr list"
  | UnexpectedOptionString pystr

datatype written =
    Text pystr
  | Usage
  | HelpText
  | ErrorLine "action option" message
  | Traceback exc

record streams =
  stdout :: "written list"
  stderr :: "written list"

text \<open>
  \<open>greet_call name io\<close> runs the body of \<open>greet\<close> with the parameter bound to the object
  \<open>name\<close>, in the process state \<open>io\<close>. It gives the returned string or the raised
  exception, and the process state after the call.
\<close>

definition greet_call :: "value \<Rightarrow> streams \<Rightarrow> (exc + pystr) \<times> streams" where
  "greet_call name io =
     (case (if name \<noteq> NoneValue then strip_method name else Inr (str_of ''World'')) of
        Inl e \<Rightarrow> (Inl e, io)
      | Inr safe \<Rightarrow> (Inr (str_of ''Hello, '' @ safe @ str_of ''!''), io))"

definition default_name :: "value" where
  "default_name = Str (str_of ''World'')"

section \<open>The command line\<close>

text \<open>
  \<^verbatim>\<open>
  def parse_args(argv=None):
      parser = argparse.ArgumentParser(prog="worldbest", description="WorldBest CLI")
      parser.add_argument("name", nargs="?", default="World", help="Name to greet")
      return parser.parse_args(argv)

  def main(argv=None):
      ns = parse_args(argv)
      print(greet(ns.name))
      return 0
  \<close>
  The parser is the \<open>ArgumentParser\<close> of the standard library (module \<open>argparse\<close> of
  CPython 3.11). The definitions of this section follow its \<open>parse_args\<close> for this one
  parser: the program name \<open>worldbest\<close>, the option \<open>-h\<close>/\<open>--help\<close> that the library adds,
  and the positional \<open>name\<close>. Each definition has the name of the library function, inner
  function or loop that it follows. The texts that the library composes (usage, help,
  error line) are kept as tokens of the output.
\<close>

text \<open>
  What ends the parse early: an \<open>ArgumentError\<close> raised for one argument (the library
  catches it in \<open>parse_known_args\<close> and calls \<open>error\<close>), a direct call of \<open>error\<close>, the exit
  of the help action, and a Python exception that nothing catches.
\<close>

datatype interrupt =
    ArgumentError action message
  | Error message
  | HelpExit
  | Uncaught exc

text \<open>
  \<open>_parse_known_args\<close> describes the command line by one letter per argument string: \<open>A\<close>
  for a positional, \<open>O\<close> for an option string and \<open>-\<close> for the first \<open>--\<close>; every string
  after that \<open>--\<close> is \<open>A\<close>.
\<close>

datatype pat = Arg | Opt | Dash

text \<open>
  The namespace of this parser has the one attribute \<open>name\<close>.
\<close>

record namespace =
  name :: "value"

text \<open>
  \<open>_parse_optional\<close> returns \<open>None\<close> for a positional and, for an option string, the tuple
  of the action (or \<open>None\<close> when the string names no option of the parser), the option
  string, the separator and the explicit argument.
\<close>

type_synonym option_tuple = "action option \<times> pystr \<times> pystr option \<times> pystr option"

definition prefix_chars :: pystr where
  "prefix_chars = str_of ''-''"

definition option_string_actions :: "(pystr \<times> action) list" where
  "option_string_actions = [(str_of ''-h'', HelpAction), (str_of ''--help'', HelpAction)]"

text \<open>
  \<open>str.partition\<close> at one code point, and \<open>str.startswith\<close>.
\<close>

definition str_partition :: "codepoint \<Rightarrow> pystr \<Rightarrow> pystr \<times> pystr \<times> pystr" where
  "str_partition c s =
     (if c \<in> set s then (takeWhile (\<lambda>x. x \<noteq> c) s, [c], tl (dropWhile (\<lambda>x. x \<noteq> c) s))
      else (s, [], []))"

definition startswith :: "pystr \<Rightarrow> pystr \<Rightarrow> bool" where
  "startswith s p \<longleftrightarrow> take (length p) s = p"

text \<open>
  The parser has no option that looks like a negative number, so an argument string that
  matches \<^verbatim>\<open>^-\d+$|^-\d*\.\d+$\<close> is a positional. In a \<open>str\<close> pattern \<^verbatim>\<open>\d\<close> matches
  every Unicode decimal digit; these lie in runs of ten, each starting at one of the
  zeros listed here. \<^verbatim>\<open>$\<close> matches at the end of the string and before a newline that
  ends it.
\<close>

definition decimal_zeros :: "codepoint list" where
  "decimal_zeros = [48, 1632, 1776, 1984, 2406, 2534, 2662, 2790, 2918, 3046, 3174, 3302,
     3430, 3558, 3664, 3792, 3872, 4160, 4240, 6112, 6160, 6470, 6608, 6784, 6800, 6992,
     7088, 7232, 7248, 42528, 43216, 43264, 43472, 43504, 43600, 44016, 65296, 66720,
     68912, 69734, 69872, 69942, 70096, 70384, 70736, 70864, 71248, 71360, 71472, 71904,
     72016, 72784, 73040, 73120, 92768, 92864, 93008, 120782, 120792, 120802, 120812,
     120822, 123200, 123632, 125264, 130032]"

definition isdecimal :: "codepoint \<Rightarrow> bool" where
  "isdecimal c \<longleftrightarrow> list_ex (\<lambda>z. z \<le> c \<and> c \<le> z + 9) decimal_zeros"

definition at_end :: "pystr \<Rightarrow> bool" where
  "at_end s \<longleftrightarrow> s = [] \<or> s = [10]"

definition negative_number_matcher :: "pystr \<Rightarrow> bool" where
  "negative_number_matcher s =
     (case s of
        [] \<Rightarrow> False
      | c # r \<Rightarrow>
          c = 45 \<and>
          (let digits = takeWhile isdecimal r; rest = dropWhile isdecimal r
           in (digits \<noteq> [] \<and> at_end rest) \<or>
              (case rest of
                 [] \<Rightarrow> False
               | d # r2 \<Rightarrow>
                   d = 46 \<and> takeWhile isdecimal r2 \<noteq> [] \<and> at_end (dropWhile isdecimal r2))))"

text \<open>
  \<open>_get_option_tuples\<close> collects the options that the string abbreviates: for a string
  that starts with two prefix characters, the option strings that start with the part
  before \<open>=\<close>; for a string with one prefix character, the option string equal to its
  first two characters (the rest is the explicit argument) and the option strings that
  start with the whole string.
\<close>

definition get_option_tuples :: "pystr \<Rightarrow> interrupt + option_tuple list" where
  "get_option_tuples option_string =
     (case option_string of
        c0 # c1 # _ \<Rightarrow>
          if c0 \<in> set prefix_chars \<and> c1 \<in> set prefix_chars then
            (case str_partition 61 option_string of
               (option_prefix, sep, explicit_arg) \<Rightarrow>
                 let sep' = (if sep = [] then None else Some sep);
                     explicit_arg' = (if sep = [] then None else Some explicit_arg)
                 in Inr (map (\<lambda>(os, action). (Some action, os, sep', explicit_arg'))
                      (filter (\<lambda>(os, action). startswith os option_prefix) option_string_actions)))
          else if c0 \<in> set prefix_chars \<and> c1 \<notin> set prefix_chars then
            (let option_prefix = option_string;
                 short_option_prefix = take 2 option_string;
                 short_explicit_arg = drop 2 option_string
             in Inr (concat (map (\<lambda>(os, action).
                  if os = short_option_prefix then [(Some action, os, Some [], Some short_explicit_arg)]
                  else if startswith os option_prefix then [(Some action, os, None, None)]
                  else []) option_string_actions)))
          else Inl (Error (UnexpectedOptionString option_string))
      | _ \<Rightarrow> Inl (Uncaught IndexError))"

text \<open>
  \<open>_parse_optional\<close>, in the order of its tests.
\<close>

definition parse_optional :: "pystr \<Rightarrow> interrupt + option_tuple option" where
  "parse_optional arg_string =
     (if arg_string = [] then Inr None
      else if hd arg_string \<notin> set prefix_chars then Inr None
      else case map_of option_string_actions arg_string of
        Some action \<Rightarrow> Inr (Some (Some action, arg_string, None, None))
      | None \<Rightarrow>
          if length arg_string = 1 then Inr None
          else case str_partition 61 arg_string of (option_string, sep, explicit_arg) \<Rightarrow>
            (case (if sep \<noteq> [] then map_of option_string_actions option_string else None) of
               Some action \<Rightarrow> Inr (Some (Some action, option_string, Some sep, Some explicit_arg))
             | None \<Rightarrow>
                 (case get_option_tuples arg_string of
                    Inl e \<Rightarrow> Inl e
                  | Inr option_tuples \<Rightarrow>
                      if length option_tuples > 1 then
                        Inl (Error (AmbiguousOption arg_string (map (\<lambda>(a, os, s, e). os) option_tuples)))
                      else if length option_tuples = 1 then Inr (Some (hd option_tuples))
                      else if negative_number_matcher arg_string then Inr None
                      else if 32 \<in> set arg_string then Inr None
                      else Inr (Some (None, arg_string, None, None)))))"

text \<open>
  The positional has \<open>nargs='?'\<close>, whose pattern is \<^verbatim>\<open>(-*A?-*)\<close>; matched at the start of a
  pattern string it takes the leading \<open>-\<close>, then one \<open>A\<close> if there is one, then the \<open>-\<close>
  that follow. The help option has \<open>nargs=0\<close> and, being an option, the empty pattern.
  \<open>_match_arguments_partial\<close> matches the longest prefix of the list of positionals that
  matches at all; here the list has at most one element and its pattern always matches.
\<close>

definition match_optional_pattern :: "pat list \<Rightarrow> nat" where
  "match_optional_pattern p =
     (let d1 = length (takeWhile (\<lambda>x. x = Dash) p)
      in case dropWhile (\<lambda>x. x = Dash) p of
           Arg # p2 \<Rightarrow> d1 + 1 + length (takeWhile (\<lambda>x. x = Dash) p2)
         | _ \<Rightarrow> d1)"

fun match_argument :: "action \<Rightarrow> pat list \<Rightarrow> nat" where
  "match_argument HelpAction p = 0"
| "match_argument StoreName p = match_optional_pattern p"

definition match_arguments_partial :: "action list \<Rightarrow> pat list \<Rightarrow> nat list" where
  "match_arguments_partial actions p =
     (case actions of [] \<Rightarrow> [] | action # _ \<Rightarrow> [match_argument action p])"

text \<open>
  \<open>_get_values\<close> for the positional: the first \<open>--\<close> is removed; no string left gives the
  default, one string gives that string, more give the list. The store action puts the
  value into the namespace, the help action prints the help and exits.
\<close>

definition get_values :: "pystr list \<Rightarrow> value" where
  "get_values arg_strings =
     (let arg_strings = remove1 (str_of ''--'') arg_strings
      in if arg_strings = [] then Str (str_of ''World'')
         else if length arg_strings = 1 then Str (hd arg_strings)
         else Strs arg_strings)"

fun take_action :: "action \<Rightarrow> pystr list \<Rightarrow> namespace \<Rightarrow> interrupt + namespace" where
  "take_action HelpAction argument_strings ns = Inl HelpExit"
| "take_action StoreName argument_strings ns = Inr (ns\<lparr>name := get_values argument_strings\<rparr>)"

fun take_actions :: "(action \<times> pystr list \<times> pystr) list \<Rightarrow> namespace \<Rightarrow> interrupt + namespace" where
  "take_actions [] ns = Inr ns"
| "take_actions ((action, args, option_string) # rest) ns =
     (case take_action action args ns of Inl e \<Rightarrow> Inl e | Inr ns' \<Rightarrow> take_actions rest ns')"

text \<open>
  \<open>consume_optional\<close> runs a \<^verbatim>\<open>while True\<close> loop over the option string at \<open>start_index\<close>; the
  loop either returns from the function (the string names no option and goes to the
  extras) or breaks with the actions to run. With an explicit argument and an option that
  takes none, the first character of the argument is tried as a further single-dash
  option. The measure is the length of the explicit argument.
\<close>

datatype loop_exit =
    Returned nat "pystr list"
  | Broke nat "(action \<times> pystr list \<times> pystr) list" "pystr list"

function optional_loop ::
  "pystr list \<Rightarrow> pat list \<Rightarrow> nat \<Rightarrow> action option \<Rightarrow> pystr \<Rightarrow> pystr option \<Rightarrow> pystr option \<Rightarrow>
   (action \<times> pystr list \<times> pystr) list \<Rightarrow> pystr list \<Rightarrow> interrupt + loop_exit" where
  "optional_loop arg_strings pattern start_index action option_string sep explicit_arg action_tuples extras =
     (case action of
        None \<Rightarrow>
          if start_index < length arg_strings
          then Inr (Returned (start_index + 1) (extras @ [arg_strings ! start_index]))
          else Inl (Uncaught IndexError)
      | Some act \<Rightarrow>
          (case explicit_arg of
             Some ea \<Rightarrow>
               (let arg_count = match_argument act [Arg] in
                if arg_count = 0 then
                  (case option_string of
                     c0 # c1 # _ \<Rightarrow>
                       if c1 \<notin> set prefix_chars \<and> ea \<noteq> [] then
                         (if (sep \<noteq> None \<and> sep \<noteq> Some []) \<or> hd ea \<in> set prefix_chars
                          then Inl (ArgumentError act (IgnoredExplicitArgument ea))
                          else
                            (let action_tuples' = action_tuples @ [(act, [], option_string)];
                                 option_string' = [c0, hd ea]
                             in case map_of option_string_actions option_string' of
                                  Some act' \<Rightarrow>
                                    if tl ea = [] then
                                      optional_loop arg_strings pattern start_index (Some act')
                                        option_string' None None action_tuples' extras
                                    else if hd (tl ea) = 61 then
                                      optional_loop arg_strings pattern start_index (Some act')
                                        option_string' (Some [61]) (Some (tl (tl ea))) action_tuples' extras
                                    else
                                      optional_loop arg_strings pattern start_index (Some act')
                                        option_string' (Some []) (Some (tl ea)) action_tuples' extras
                                | None \<Rightarrow>
                                    Inr (Broke (start_index + 1) action_tuples' (extras @ [c0 # ea]))))
                       else Inl (ArgumentError act (IgnoredExplicitArgument ea))
                   | _ \<Rightarrow> Inl (Uncaught IndexError))
                else if arg_count = 1 then
                  Inr (Broke (start_index + 1) (action_tuples @ [(act, [ea], option_string)]) extras)
                else Inl (ArgumentError act (IgnoredExplicitArgument ea)))
           | None \<Rightarrow>
               (let start = start_index + 1;
                    arg_count = match_argument act (drop start pattern);
                    stop = start + arg_count;
                    args = take arg_count (drop start arg_strings)
                in Inr (Broke stop (action_tuples @ [(act, args, option_string)]) extras))))"
  by pat_completeness auto
termination
  by (relation "measure (\<lambda>(arg_strings, pattern, start_index, action, option_string, sep,
        explicit_arg, action_tuples, extras). case explicit_arg of None \<Rightarrow> 0 | Some ea \<Rightarrow> Suc (length ea))")
     (auto split: option.splits)

text \<open>
  \<open>consume_positionals\<close> takes the strings for as many positionals as match, runs their
  actions and drops them from the list of positionals.
\<close>

fun take_positionals ::
  "(action \<times> nat) list \<Rightarrow> pystr list \<Rightarrow> nat \<Rightarrow> namespace \<Rightarrow> interrupt + (nat \<times> namespace)" where
  "take_positionals [] arg_strings start_index ns = Inr (start_index, ns)"
| "take_positionals ((action, arg_count) # rest) arg_strings start_index ns =
     (case take_action action (take arg_count (drop start_index arg_strings)) ns of
        Inl e \<Rightarrow> Inl e
      | Inr ns' \<Rightarrow> take_positionals rest arg_strings (start_index + arg_count) ns')"

text \<open>
  The variables of \<open>_parse_known_args\<close> that its inner functions share.
\<close>

record pstate =
  start_index :: nat
  positionals :: "action list"
  namespace :: namespace
  extras :: "pystr list"

definition consume_optional ::
  "pystr list \<Rightarrow> (nat \<times> option_tuple) list \<Rightarrow> pat list \<Rightarrow> pstate \<Rightarrow> interrupt + pstate" where
  "consume_optional arg_strings option_string_indices pattern st =
     (case map_of option_string_indices (start_index st) of
        None \<Rightarrow> Inl (Uncaught KeyError)
      | Some (action, option_string, sep, explicit_arg) \<Rightarrow>
          (case optional_loop arg_strings pattern (start_index st) action option_string sep
                  explicit_arg [] (extras st) of
             Inl e \<Rightarrow> Inl e
           | Inr (Returned stop extras') \<Rightarrow> Inr (st\<lparr>start_index := stop, extras := extras'\<rparr>)
           | Inr (Broke stop action_tuples extras') \<Rightarrow>
               (case take_actions action_tuples (namespace st) of
                  Inl e \<Rightarrow> Inl e
                | Inr ns \<Rightarrow> Inr (st\<lparr>start_index := stop, namespace := ns, extras := extras'\<rparr>))))"

definition consume_positionals :: "pystr list \<Rightarrow> pat list \<Rightarrow> pstate \<Rightarrow> interrupt + pstate" where
  "consume_positionals arg_strings pattern st =
     (let selected_pattern = drop (start_index st) pattern;
          arg_counts = match_arguments_partial (positionals st) selected_pattern
      in case take_positionals (zip (positionals st) arg_counts) arg_strings (start_index st)
                (namespace st) of
           Inl e \<Rightarrow> Inl e
         | Inr (start_index', ns) \<Rightarrow>
             Inr (st\<lparr>start_index := start_index', namespace := ns,
                      positionals := drop (length arg_counts) (positionals st)\<rparr>))"

text \<open>
  The first loop of \<open>_parse_known_args\<close>: the indices of the option strings with their
  tuples, and the pattern.
\<close>

fun arg_string_pattern ::
  "nat \<Rightarrow> pystr list \<Rightarrow> interrupt + ((nat \<times> option_tuple) list \<times> pat list)" where
  "arg_string_pattern i [] = Inr ([], [])"
| "arg_string_pattern i (arg_string # rest) =
     (if arg_string = str_of ''--'' then Inr ([], Dash # map (\<lambda>_. Arg) rest)
      else case parse_optional arg_string of
             Inl e \<Rightarrow> Inl e
           | Inr option_tuple \<Rightarrow>
               (case arg_string_pattern (i + 1) rest of
                  Inl e \<Rightarrow> Inl e
                | Inr (indices, parts) \<Rightarrow>
                    (case option_tuple of
                       None \<Rightarrow> Inr (indices, Arg # parts)
                     | Some t \<Rightarrow> Inr ((i, t) # indices, Opt # parts))))"

text \<open>
  The main loop of \<open>_parse_known_args\<close>, \<^verbatim>\<open>while start_index <= max_option_string_index\<close>. It
  ends because every turn moves \<open>start_index\<close> forward; the proof is below, after the
  lemmas it needs.
\<close>

definition max_option_string_index :: "(nat \<times> option_tuple) list \<Rightarrow> int" where
  "max_option_string_index option_string_indices =
     (if option_string_indices \<noteq> [] then int (Max (set (map fst option_string_indices))) else - 1)"

function parse_loop ::
  "pystr list \<Rightarrow> (nat \<times> option_tuple) list \<Rightarrow> pat list \<Rightarrow> pstate \<Rightarrow> interrupt + pstate" where
  "parse_loop arg_strings option_string_indices pattern st =
     (if int (start_index st) \<le> max_option_string_index option_string_indices then
        (case filter (\<lambda>index. start_index st \<le> index) (map fst option_string_indices) of
           [] \<Rightarrow> Inl (Uncaught ValueError)
         | i # is \<Rightarrow>
             (let next_option_string_index = Min (set (i # is)) in
              case (if start_index st \<noteq> next_option_string_index
                    then consume_positionals arg_strings pattern st else Inr st) of
                Inl e \<Rightarrow> Inl e
              | Inr st1 \<Rightarrow>
                  if start_index st \<noteq> next_option_string_index \<and> start_index st < start_index st1
                  then parse_loop arg_strings option_string_indices pattern st1
                  else
                    (let st2 =
                       (if map_of option_string_indices (start_index st1) = None
                        then st1\<lparr>extras := extras st1 @
                                   take (next_option_string_index - start_index st1)
                                     (drop (start_index st1) arg_strings),
                                 start_index := next_option_string_index\<rparr>
                        else st1)
                     in case consume_optional arg_strings option_string_indices pattern st2 of
                          Inl e \<Rightarrow> Inl e
                        | Inr st3 \<Rightarrow>
                            parse_loop arg_strings option_string_indices pattern st3)))
      else Inr st)"
  by pat_completeness auto

text \<open>
  \<open>_parse_known_args\<close>: the two loops, then the remaining positionals; what is left of the
  command line goes to the extras. The positional is not required, so no check follows.
\<close>

definition private_parse_known_args ::
  "pystr list \<Rightarrow> namespace \<Rightarrow> interrupt + (namespace \<times> pystr list)" where
  "private_parse_known_args arg_strings ns =
     (case arg_string_pattern 0 arg_strings of
        Inl e \<Rightarrow> Inl e
      | Inr (option_string_indices, arg_strings_pattern) \<Rightarrow>
          (case parse_loop arg_strings option_string_indices arg_strings_pattern
                  \<lparr>start_index = 0, positionals = [StoreName], namespace = ns, extras = []\<rparr> of
             Inl e \<Rightarrow> Inl e
           | Inr st \<Rightarrow>
               (case consume_positionals arg_strings arg_strings_pattern st of
                  Inl e \<Rightarrow> Inl e
                | Inr st' \<Rightarrow>
                    Inr (namespace st', extras st' @ drop (start_index st') arg_strings))))"

text \<open>
  A call returns, exits the process with a status, or raises. \<open>error\<close> prints the usage
  and the message to standard error and exits with status 2. \<open>parse_known_args\<close> takes
  the arguments from \<open>sys.argv[1:]\<close> when it gets \<open>None\<close>, and starts from a namespace that
  holds the default. \<open>parse_args\<close> reports left-over arguments as an error.
\<close>

datatype 'a outcome = Return 'a | SystemExit int | Raise exc

definition error :: "action option \<Rightarrow> message \<Rightarrow> streams \<Rightarrow> 'a outcome \<times> streams" where
  "error argument message io =
     (SystemExit 2, io\<lparr>stderr := stderr io @ [Usage, ErrorLine argument message]\<rparr>)"

definition parse_known_args ::
  "pystr list \<Rightarrow> pystr list option \<Rightarrow> streams \<Rightarrow> (namespace \<times> pystr list) outcome \<times> streams" where
  "parse_known_args sys_argv args io =
     (let args = (case args of None \<Rightarrow> drop 1 sys_argv | Some args \<Rightarrow> args);
          ns = \<lparr>name = Str (str_of ''World'')\<rparr>
      in case private_parse_known_args args ns of
           Inl (ArgumentError action message) \<Rightarrow> error (Some action) message io
         | Inl (Error message) \<Rightarrow> error None message io
         | Inl HelpExit \<Rightarrow> (SystemExit 0, io\<lparr>stdout := stdout io @ [HelpText]\<rparr>)
         | Inl (Uncaught e) \<Rightarrow> (Raise e, io)
         | Inr (ns', extras') \<Rightarrow> (Return (ns', extras'), io))"

definition ArgumentParser_parse_args ::
  "pystr list \<Rightarrow> pystr list option \<Rightarrow> streams \<Rightarrow> namespace outcome \<times> streams" where
  "ArgumentParser_parse_args sys_argv args io =
     (case parse_known_args sys_argv args io of
        (Return (ns, argv), io') \<Rightarrow>
          if argv \<noteq> [] then error None (UnrecognizedArguments argv) io' else (Return ns, io')
      | (SystemExit status, io') \<Rightarrow> (SystemExit status, io')
      | (Raise e, io') \<Rightarrow> (Raise e, io'))"

text \<open>
  The two functions of \<open>cli.py\<close>, and the script run as a process with empty output
  streams: the status is the value passed to \<open>sys.exit\<close>, or 1 after a traceback.
\<close>

definition parse_args ::
  "pystr list \<Rightarrow> pystr list option \<Rightarrow> streams \<Rightarrow> namespace outcome \<times> streams" where
  "parse_args sys_argv argv io = ArgumentParser_parse_args sys_argv argv io"

definition main :: "pystr list \<Rightarrow> pystr list option \<Rightarrow> streams \<Rightarrow> int outcome \<times> streams" where
  "main sys_argv argv io =
     (case parse_args sys_argv argv io of
        (Return ns, io') \<Rightarrow>
          (case greet_call (name ns) io' of
             (Inr greeting, io'') \<Rightarrow>
               (Return 0, io''\<lparr>stdout := stdout io'' @ [Text (greeting @ [10])]\<rparr>)
           | (Inl e, io'') \<Rightarrow> (Raise e, io''))
      | (SystemExit status, io') \<Rightarrow> (SystemExit status, io')
      | (Raise e, io') \<Rightarrow> (Raise e, io'))"

definition script :: "pystr list \<Rightarrow> int \<times> streams" where
  "script sys_argv =
     (case main sys_argv None \<lparr>stdout = [], stderr = []\<rparr> of
        (Return status, io) \<Rightarrow> (status, io)
      | (SystemExit status, io) \<Rightarrow> (status, io)
      | (Raise e, io) \<Rightarrow> (1, io\<lparr>stderr := stderr io @ [Traceback e]\<rparr>))"

text \<open>
  How the parser reads a command line: the number of its positionals, whether one of its
  option strings names no option of the parser, and whether one names the help option.
\<close>

definition positional_count :: "pystr list \<Rightarrow> nat" where
  "positional_count args =
     (case arg_string_pattern 0 args of
        Inl e \<Rightarrow> 0
      | Inr (option_string_indices, pattern) \<Rightarrow> length (filter (\<lambda>x. x = Arg) pattern))"

definition unknown_flag :: "pystr list \<Rightarrow> bool" where
  "unknown_flag args =
     (case arg_string_pattern 0 args of
        Inl e \<Rightarrow> False
      | Inr (option_string_indices, pattern) \<Rightarrow>
          list_ex (\<lambda>(index, action, rest). action = None) option_string_indices)"

definition help_flag :: "pystr list \<Rightarrow> bool" where
  "help_flag args =
     (case arg_string_pattern 0 args of
        Inl e \<Rightarrow> False
      | Inr (option_string_indices, pattern) \<Rightarrow>
          list_ex (\<lambda>(index, action, rest). action = Some HelpAction) option_string_indices)"

section \<open>Invariants of the parser\<close>

text \<open>
  Predicates for the proofs. A tuple from \<open>_parse_optional\<close> has no action or the help
  action with an option string of two characters at least. The pattern has one letter for
  each argument string, and after the letter \<open>-\<close> only \<open>A\<close>. An option loop for the help
  action ends in an argument error or with help actions to run. The indices of the option
  strings lie in the command line, at the letters \<open>O\<close>. A main loop that has seen an option
  string ends in help, in an argument error or with extras.
\<close>

definition good_tuple :: "option_tuple \<Rightarrow> bool" where
  "good_tuple t = (case t of (None, _) \<Rightarrow> True | (Some act, os, _) \<Rightarrow> act = HelpAction \<and> 2 \<le> length os)"

fun aligned :: "pystr list \<Rightarrow> pat list \<Rightarrow> bool" where
  "aligned [] [] = True"
| "aligned (a # as) (Dash # ps) = (a = str_of ''--'' \<and> ps = map (\<lambda>_. Arg) as)"
| "aligned (a # as) (Arg # ps) = aligned as ps"
| "aligned (a # as) (Opt # ps) = aligned as ps"
| "aligned _ _ = False"

definition help_loop_exit :: "interrupt + loop_exit \<Rightarrow> bool" where
  "help_loop_exit r =
     (case r of
        Inl e \<Rightarrow> \<exists>m. e = ArgumentError HelpAction m
      | Inr (Returned stop ex) \<Rightarrow> False
      | Inr (Broke stop ts ex) \<Rightarrow> ts \<noteq> [] \<and> (\<forall>t\<in>set ts. fst t = HelpAction))"

definition well_formed :: "pystr list \<Rightarrow> (nat \<times> option_tuple) list \<Rightarrow> pat list \<Rightarrow> bool" where
  "well_formed args osi pattern \<longleftrightarrow>
     (\<forall>(j, t)\<in>set osi. j < length args \<and> good_tuple t \<and> j < length pattern \<and> pattern ! j = Opt)"

definition loop_rejects :: "(nat \<times> option_tuple) list \<Rightarrow> interrupt + pstate \<Rightarrow> bool" where
  "loop_rejects osi r \<longleftrightarrow>
     (r = Inl HelpExit \<and> (\<exists>(j, t)\<in>set osi. fst t \<noteq> None)) \<or>
     (\<exists>m. r = Inl (ArgumentError HelpAction m)) \<or>
     (\<exists>st'. r = Inr st' \<and> extras st' \<noteq> [] \<and> set (positionals st') \<subseteq> {StoreName})"

section \<open>Properties of trimming\<close>

lemma lstrip_whitespace:
  "\<forall>c\<in>set pre. isspace c \<Longrightarrow> lstrip (pre @ s) = lstrip s"
  by (induction pre) (simp_all add: lstrip_def)

lemma lstrip_fixed:
  "s = [] \<or> \<not> isspace (hd s) \<Longrightarrow> lstrip s = s"
  by (cases s) (simp_all add: lstrip_def)

lemma rstrip_whitespace:
  "\<forall>c\<in>set post. isspace c \<Longrightarrow> rstrip (s @ post) = rstrip s"
proof -
  assume "\<forall>c\<in>set post. isspace c"
  then have "dropWhile isspace (rev post @ rev s) = dropWhile isspace (rev s)"
    by (induction post rule: rev_induct) simp_all
  then show ?thesis
    by (simp add: rstrip_def)
qed

lemma rstrip_fixed:
  "s = [] \<or> \<not> isspace (last s) \<Longrightarrow> rstrip s = s"
proof (cases s rule: rev_cases)
  case Nil
  then show ?thesis by (simp add: rstrip_def)
next
  case (snoc ys y)
  assume "s = [] \<or> \<not> isspace (last s)"
  with snoc show ?thesis by (simp add: rstrip_def)
qed

lemma strip_core:
  assumes "\<forall>c\<in>set pre. isspace c" and "\<forall>c\<in>set post. isspace c"
    and "t = [] \<or> (\<not> isspace (hd t) \<and> \<not> isspace (last t))"
  shows "strip (pre @ t @ post) = t"
proof (cases "t = []")
  case True
  have "lstrip (pre @ post) = []"
    using assms(1,2) by (simp add: lstrip_def)
  with True show ?thesis
    by (simp add: strip_def rstrip_def)
next
  case False
  with assms(3) have edge: "\<not> isspace (hd t)" "\<not> isspace (last t)"
    by simp_all
  have "lstrip (pre @ t @ post) = lstrip (t @ post)"
    using assms(1) by (rule lstrip_whitespace)
  also have "\<dots> = t @ post"
    using False edge(1) by (intro lstrip_fixed) simp
  finally have "strip (pre @ t @ post) = rstrip (t @ post)"
    by (simp add: strip_def)
  also have "\<dots> = rstrip t"
    using assms(2) by (rule rstrip_whitespace)
  also have "\<dots> = t"
    using edge(2) by (intro rstrip_fixed) simp
  finally show ?thesis .
qed

lemma strip_all_whitespace:
  "\<forall>c\<in>set s. isspace c \<Longrightarrow> strip s = []"
  using strip_core [of s "[]" "[]"] by simp

lemma rstrip_prefix:
  "s = rstrip s @ rev (takeWhile isspace (rev s))"
proof -
  have "rev (dropWhile isspace (rev s)) @ rev (takeWhile isspace (rev s)) =
      rev (takeWhile isspace (rev s) @ dropWhile isspace (rev s))"
    by (simp only: rev_append)
  also have "\<dots> = rev (rev s)"
    by (simp only: takeWhile_dropWhile_id)
  finally show ?thesis
    by (simp add: rstrip_def)
qed

lemma strip_edges:
  "strip s = [] \<or> (\<not> isspace (hd (strip s)) \<and> \<not> isspace (last (strip s)))"
proof (cases "strip s = []")
  case True
  then show ?thesis by simp
next
  case False
  define u where "u = lstrip s"
  from False have ne: "rstrip u \<noteq> []"
    by (simp add: strip_def u_def)
  have "u = rstrip u @ rev (takeWhile isspace (rev u))"
    by (rule rstrip_prefix)
  with ne have hd_eq: "hd (rstrip u) = hd u" and u_ne: "u \<noteq> []"
    by (metis hd_append2, metis append_is_Nil_conv)
  from u_ne have "\<not> isspace (hd u)"
    unfolding u_def lstrip_def by (rule hd_dropWhile)
  moreover from ne have "dropWhile isspace (rev u) \<noteq> []"
    by (simp add: rstrip_def)
  then have "\<not> isspace (hd (dropWhile isspace (rev u)))"
    by (rule hd_dropWhile)
  then have "\<not> isspace (last (rstrip u))"
    using ne by (simp add: rstrip_def last_rev)
  ultimately show ?thesis
    using hd_eq by (simp add: strip_def u_def)
qed

lemma strip_idem: "strip (strip s) = strip s"
  using strip_core [of "[]" "[]" "strip s"] strip_edges [of s] by simp

lemma greet_Some: "greet (Some s) = str_of ''Hello, '' @ strip s @ str_of ''!''"
  by (simp add: greet_def)

lemma greet_None: "greet None = str_of ''Hello, World!''"
  by (simp add: greet_def str_of_def)

lemma strip_World: "strip (str_of ''World'') = str_of ''World''"
  by (simp add: strip_def lstrip_def rstrip_def str_of_def isspace_def)

lemma greet_call_Str:
  "greet_call (Str s) io = (Inr (greet (Some s)), io)"
  by (simp add: greet_call_def greet_def)

lemma greet_call_None:
  "greet_call NoneValue io = (Inr (greet None), io)"
  by (simp add: greet_call_def greet_def)

lemma greet_call_list:
  "greet_call (Strs xs) io = (Inl AttributeError, io)"
  by (simp add: greet_call_def)

lemma greet_call_result:
  "fst (greet_call obj io) =
     (case obj of
        NoneValue \<Rightarrow> Inr (str_of ''Hello, World!'')
      | Str s \<Rightarrow> Inr (str_of ''Hello, '' @ strip s @ str_of ''!'')
      | Strs xs \<Rightarrow> Inl AttributeError)"
  by (cases obj) (simp_all add: greet_call_def str_of_def)

section \<open>Termination of the main loop\<close>

lemma take_positionals_mono:
  "take_positionals zs arg_strings i ns = Inr (j, ns') \<Longrightarrow> i \<le> j"
proof (induction zs arbitrary: i ns)
  case Nil
  then show ?case by simp
next
  case (Cons z zs)
  obtain action n where z: "z = (action, n)" by (cases z)
  from Cons.prems z obtain ns1 where "take_positionals zs arg_strings (i + n) ns1 = Inr (j, ns')"
    by (auto split: sum.splits)
  then have "i + n \<le> j" by (rule Cons.IH)
  then show ?case by simp
qed

lemma consume_positionals_mono:
  "consume_positionals arg_strings pattern st = Inr st1 \<Longrightarrow> start_index st \<le> start_index st1"
  by (auto simp: consume_positionals_def Let_def split: sum.splits dest: take_positionals_mono)

declare optional_loop.simps [simp del]

lemma optional_loop_stop:
  "optional_loop arg_strings pattern i action option_string sep explicit_arg tuples ex = Inr r \<Longrightarrow>
   (case r of Returned stop _ \<Rightarrow> i < stop | Broke stop _ _ \<Rightarrow> i < stop)"
proof (induction arg_strings pattern i action option_string sep explicit_arg tuples ex
    rule: optional_loop.induct)
  case (1 arg_strings pattern start_index action option_string sep explicit_arg action_tuples extras)
  show ?case
    using "1.prems" "1.IH"
    by (subst (asm) optional_loop.simps)
      (auto simp: Let_def split: option.splits if_splits list.splits)
qed

lemma consume_optional_advances:
  assumes "consume_optional arg_strings osi pattern st = Inr st'"
  shows "start_index st < start_index st'"
proof -
  from assms obtain action option_string sep explicit_arg r where
    r: "optional_loop arg_strings pattern (start_index st) action option_string sep
          explicit_arg [] (extras st) = Inr r"
    and st': "case r of Returned stop extras' \<Rightarrow> start_index st' = stop
      | Broke stop action_tuples extras' \<Rightarrow> start_index st' = stop"
    by (auto simp: consume_optional_def split: option.splits sum.splits loop_exit.splits)
  from optional_loop_stop [OF r] st' show ?thesis
    by (cases r) simp_all
qed

termination parse_loop
proof (relation "measure (\<lambda>(arg_strings, osi, pattern, st).
    nat (max_option_string_index osi + 1 - int (start_index st)))", goal_cases)
  case 1
  show ?case by simp
next
  case (2 arg_strings osi pattern st i "is" nxt st1)
  then show ?case by simp
next
  case (3 arg_strings osi pattern st i "is" nxt st1 st2 st3)
  have le1: "start_index st \<le> start_index st1"
    using 3(4) consume_positionals_mono by (auto split: if_splits)
  have "\<forall>x\<in>set (i # is). start_index st \<le> x"
    unfolding 3(2) [symmetric] by simp
  then have "start_index st \<le> nxt"
    unfolding 3(3) by (simp)
  with le1 have "start_index st \<le> start_index st2"
    unfolding 3(6) by simp
  moreover have "start_index st2 < start_index st3"
    using 3(7) by (rule consume_optional_advances)
  ultimately show ?case
    using 3(1) by simp
qed

declare parse_loop.simps [simp del]

section \<open>Properties of the parser\<close>

lemma map_of_actions:
  "map_of option_string_actions s = Some act \<Longrightarrow> act = HelpAction \<and> 2 \<le> length s"
  by (auto simp: option_string_actions_def str_of_def split: if_splits)

lemma get_option_tuples_cases:
  "2 \<le> length s \<Longrightarrow> hd s \<in> set prefix_chars \<Longrightarrow>
   \<exists>ts. get_option_tuples s = Inr ts \<and> length ts \<le> 1 \<and> (\<forall>t\<in>set ts. good_tuple t \<and> fst t \<noteq> None)"
proof -
  assume len: "2 \<le> length s" and hd: "hd s \<in> set prefix_chars"
  then obtain c0 c1 r where s: "s = c0 # c1 # r"
    by (cases s; cases "tl s") auto
  with hd have c0: "c0 = 45" by (simp add: prefix_chars_def str_of_def)
  show ?thesis
  proof (cases "c1 = 45")
    case True
    obtain pre sep ea where part: "str_partition 61 s = (pre, sep, ea)"
      by (cases "str_partition 61 s") auto
    have pre: "take 2 pre = [45, 45]"
      using part s c0 True by (auto simp: str_partition_def split: if_splits)
    then have "\<not> startswith (str_of ''-h'') pre"
      by (cases pre; cases "tl pre") (auto simp: startswith_def str_of_def)
    then show ?thesis
      using s c0 True part
      by (simp add: get_option_tuples_def prefix_chars_def str_of_def option_string_actions_def
          good_tuple_def Let_def)
  next
    case False
    have "\<not> startswith (str_of ''--help'') s"
      using s c0 False by (auto simp: startswith_def str_of_def)
    moreover have "startswith (str_of ''-h'') s \<Longrightarrow> str_of ''-h'' = take 2 s"
      using s by (auto simp: startswith_def str_of_def)
    ultimately show ?thesis
      using s c0 False
      by (auto simp add: get_option_tuples_def prefix_chars_def  option_string_actions_def
          good_tuple_def Let_def) (auto simp: str_of_def)
  qed
qed

lemma parse_optional_good:
  "\<exists>r. parse_optional a = Inr r \<and> (\<forall>t. r = Some t \<longrightarrow> good_tuple t)"
proof (cases "a = [] \<or> hd a \<notin> set prefix_chars")
  case True
  then show ?thesis by (auto simp: parse_optional_def)
next
  case False
  then have ne: "a \<noteq> []" and hd: "hd a \<in> set prefix_chars" by auto
  show ?thesis
  proof (cases "map_of option_string_actions a")
    case (Some act)
    with ne hd map_of_actions [OF Some] show ?thesis
      by (simp add: parse_optional_def good_tuple_def)
  next
    case None
    show ?thesis
    proof (cases "length a = 1")
      case True
      with ne hd None show ?thesis by (simp add: parse_optional_def)
    next
      case False
      with ne have len: "2 \<le> length a" by (cases a; cases "tl a") auto
      obtain os sep ea where part: "str_partition 61 a = (os, sep, ea)"
        by (cases "str_partition 61 a") auto
      from get_option_tuples_cases [OF len hd] obtain ts where
        ts: "get_option_tuples a = Inr ts" "length ts \<le> 1" "\<forall>t\<in>set ts. good_tuple t \<and> fst t \<noteq> None"
        by blast
      show ?thesis
      proof (cases "if sep \<noteq> [] then map_of option_string_actions os else None")
        case (Some act)
        then have "map_of option_string_actions os = Some act" by (simp split: if_splits)
        from map_of_actions [OF this] Some ne hd None False part show ?thesis
          by (simp add: parse_optional_def good_tuple_def)
      next
        case N2: None
        have "length ts = 1 \<Longrightarrow> good_tuple (hd ts)"
          using ts(3) by (cases ts) auto
        with N2 ne hd None False part ts show ?thesis
          by (auto simp add: parse_optional_def good_tuple_def)
      qed
    qed
  qed
qed

lemma aligned_all_Arg: "aligned as (map (\<lambda>_. Arg) as)"
  by (induction as) simp_all

lemma takeWhile_Dash_Args [simp]: "takeWhile (\<lambda>x. x = Dash) (map (\<lambda>_. Arg) xs) = []"
  by (cases xs) simp_all

lemma aligned_length: "aligned as ps \<Longrightarrow> length ps = length as"
  by (induction as ps rule: aligned.induct) simp_all

lemma aligned_tl: "aligned (a # as) (x # ps) \<Longrightarrow> aligned as ps"
  by (cases x) (simp_all add: aligned_all_Arg)

lemma aligned_drop: "aligned as ps \<Longrightarrow> aligned (drop n as) (drop n ps)"
proof (induction n arbitrary: as ps)
  case 0
  then show ?case by simp
next
  case (Suc n)
  show ?case
  proof (cases as)
    case Nil
    with Suc.prems show ?thesis by (cases ps) simp_all
  next
    case (Cons a as')
    with Suc.prems obtain x ps' where ps: "ps = x # ps'" by (cases ps) auto
    with Cons Suc.prems have "aligned as' ps'" by (auto dest: aligned_tl)
    then have "aligned (drop n as') (drop n ps')" by (rule Suc.IH)
    with Cons ps show ?thesis by simp
  qed
qed

lemma arg_string_pattern_props:
  "\<exists>osi p. arg_string_pattern i args = Inr (osi, p) \<and> aligned args p \<and>
     (\<forall>(j, t)\<in>set osi. i \<le> j \<and> j < i + length args \<and> good_tuple t \<and> p ! (j - i) = Opt \<and>
        parse_optional (args ! (j - i)) = Inr (Some t))"
proof (induction args arbitrary: i)
  case Nil
  then show ?case by simp
next
  case (Cons a args)
  show ?case
  proof (cases "a = str_of ''--''")
    case True
    then show ?thesis by (simp add: aligned_all_Arg)
  next
    case False
    from parse_optional_good [of a] obtain r where
      r: "parse_optional a = Inr r" "\<forall>t. r = Some t \<longrightarrow> good_tuple t" by blast
    from Cons.IH [of "i + 1"] obtain osi p where
      ih: "arg_string_pattern (i + 1) args = Inr (osi, p)" "aligned args p"
        "\<forall>(j, t)\<in>set osi. i + 1 \<le> j \<and> j < i + 1 + length args \<and> good_tuple t \<and>
           p ! (j - (i + 1)) = Opt \<and> parse_optional (args ! (j - (i + 1))) = Inr (Some t)"
      by blast
    have shift: "\<And>j. i + 1 \<le> j \<Longrightarrow> (x # p) ! (j - i) = p ! (j - (i + 1))"
        "\<And>j. i + 1 \<le> j \<Longrightarrow> (a # args) ! (j - i) = args ! (j - (i + 1))" for x
      by (simp_all add: nth_Cons')
    show ?thesis
    proof (cases r)
      case None
      with False r ih shift show ?thesis
        by (auto simp: nth_Cons' split: prod.splits)
    next
      case (Some t)
      with False r ih shift show ?thesis
        by (auto simp: nth_Cons' split: prod.splits)
    qed
  qed
qed

lemma get_values_Str:
  assumes "aligned args p"
  shows "\<exists>s. get_values (take (match_optional_pattern p) args) = Str s"
proof (cases p)
  case Nil
  then show ?thesis by (simp add: match_optional_pattern_def get_values_def)
next
  case (Cons x ps)
  with assms obtain a as where args: "args = a # as" by (cases args) auto
  show ?thesis
  proof (cases x)
    case Opt
    with Cons show ?thesis by (simp add: match_optional_pattern_def get_values_def)
  next
    case Dash
    with Cons args assms have a: "a = str_of ''--''" and ps: "ps = map (\<lambda>_. Arg) as" by auto
    show ?thesis
      using Cons Dash args a ps
      by (cases as) (simp_all add: match_optional_pattern_def get_values_def)
  next
    case Arg
    show ?thesis
    proof (cases ps)
      case Nil
      with Cons Arg args show ?thesis
        by (simp add: match_optional_pattern_def get_values_def)
    next
      case ps: (Cons y ps')
      with Cons Arg args assms obtain b bs where as: "as = b # bs" by (cases as) auto
      show ?thesis
      proof (cases y)
        case Dash
        with Cons Arg args assms ps as have b: "b = str_of ''--''" and ps': "ps' = map (\<lambda>_. Arg) bs"
          by auto
        have "takeWhile (\<lambda>x. x = Dash) ps' = []"
          unfolding ps' by simp
        with Cons Arg args ps as Dash b show ?thesis
          by (simp add: match_optional_pattern_def get_values_def)
      qed (use Cons Arg args ps as in \<open>simp_all add: match_optional_pattern_def get_values_def\<close>)
    qed
  qed
qed

lemma match_take:
  "\<exists>c. match_optional_pattern p = c \<and> c \<le> length p \<and>
     (\<forall>x\<in>set (take c p). x \<noteq> Opt) \<and> length (filter (\<lambda>x. x = Arg) (take c p)) \<le> 1"
proof -
  define d1 where "d1 = takeWhile (\<lambda>x. x = Dash) p"
  define q where "q = dropWhile (\<lambda>x. x = Dash) p"
  have p: "p = d1 @ q" by (simp add: d1_def q_def)
  have d1: "\<forall>x\<in>set d1. x = Dash" unfolding d1_def by (auto dest: set_takeWhileD)
  show ?thesis
  proof (cases "\<exists>p2. q = Arg # p2")
    case True
    then obtain p2 where q: "q = Arg # p2" by blast
    define d2 where "d2 = takeWhile (\<lambda>x. x = Dash) p2"
    have d2: "\<forall>x\<in>set d2. x = Dash" unfolding d2_def by (auto dest: set_takeWhileD)
    have p2: "p2 = d2 @ dropWhile (\<lambda>x. x = Dash) p2" by (simp add: d2_def)
    have c: "match_optional_pattern p = length d1 + 1 + length d2"
      using q by (simp add: match_optional_pattern_def d1_def [symmetric] q_def [symmetric] d2_def Let_def)
    define m where "m = d1 @ Arg # d2"
    have pe: "m @ dropWhile (\<lambda>x. x = Dash) p2 = p"
      using p q p2 by (simp add: m_def)
    have lm: "length m = length d1 + 1 + length d2"
      by (simp add: m_def)
    from pe have "take (length m) p = m"
      by (simp add: append_eq_conv_conj)
    then have "take (length d1 + 1 + length d2) p = d1 @ Arg # d2"
      by (simp add: lm m_def)
    moreover from pe have "length m \<le> length p"
      by (metis length_append le_add1)
    then have "length d1 + 1 + length d2 \<le> length p"
      by (simp add: lm)
    ultimately show ?thesis
      using c d1 d2 by (auto simp: filter_empty_conv)
  next
    case False
    then have c: "match_optional_pattern p = length d1"
      by (auto simp: match_optional_pattern_def d1_def [symmetric] q_def [symmetric] Let_def
          split: list.splits pat.splits)
    have "take (length d1) p = d1" using p by simp
    moreover have "length d1 \<le> length p" using p by (metis length_append le_add1)
    moreover have "filter (\<lambda>x. x = Arg) d1 = []"
      using d1 by (auto simp: filter_empty_conv)
    ultimately show ?thesis
      using c d1 by auto
  qed
qed

lemma consume_positionals_props:
  assumes "set (positionals st) \<subseteq> {StoreName}"
  shows "\<exists>st1. consume_positionals args pattern st = Inr st1 \<and> extras st1 = extras st \<and>
           set (positionals st1) \<subseteq> {StoreName} \<and>
           (positionals st = [] \<longrightarrow> start_index st1 = start_index st \<and> namespace st1 = namespace st) \<and>
           (positionals st \<noteq> [] \<longrightarrow>
              start_index st1 = start_index st + match_optional_pattern (drop (start_index st) pattern) \<and>
              namespace st1 = (namespace st)\<lparr>name := get_values
                (take (match_optional_pattern (drop (start_index st) pattern))
                   (drop (start_index st) args))\<rparr>)"
proof (cases "positionals st")
  case Nil
  then show ?thesis
    by (simp add: consume_positionals_def match_arguments_partial_def)
next
  case (Cons a rest)
  with assms have a: "a = StoreName" and rest: "set rest \<subseteq> {StoreName}" by auto
  show ?thesis
    using Cons a rest
    by (cases rest) (auto simp: consume_positionals_def match_arguments_partial_def Let_def
        dest: in_set_dropD)
qed

lemma take_actions_help:
  "ts \<noteq> [] \<Longrightarrow> \<forall>t\<in>set ts. fst t = HelpAction \<Longrightarrow> take_actions ts ns = Inl HelpExit"
  by (cases ts) auto

lemma optional_loop_help:
  "2 \<le> length option_string \<Longrightarrow> \<forall>t\<in>set action_tuples. fst t = HelpAction \<Longrightarrow>
   help_loop_exit (optional_loop arg_strings pattern i (Some HelpAction) option_string sep
     explicit_arg action_tuples ex)"
proof (induction "case explicit_arg of None \<Rightarrow> 0 | Some ea \<Rightarrow> Suc (length ea)"
    arbitrary: option_string sep explicit_arg action_tuples rule: less_induct)
  case less
  from less.prems(1) obtain c0 c1 r where os: "option_string = c0 # c1 # r"
    by (cases option_string; cases "tl option_string") auto
  show ?case
  proof (cases explicit_arg)
    case None
    then show ?thesis
      using less.prems by (subst optional_loop.simps) (simp add: Let_def help_loop_exit_def)
  next
    case (Some ea)
    show ?thesis
    proof (cases "c1 \<notin> set prefix_chars \<and> ea \<noteq> [] \<and>
        \<not> ((sep \<noteq> None \<and> sep \<noteq> Some []) \<or> hd ea \<in> set prefix_chars)")
      case False
      then show ?thesis
        using less.prems Some os
        by (subst optional_loop.simps) (auto simp: Let_def help_loop_exit_def)
    next
      case True
      define ts where "ts = action_tuples @ [(HelpAction, [], option_string)]"
      have ts: "\<forall>t\<in>set ts. fst t = HelpAction" "ts \<noteq> []"
        using less.prems(2) by (auto simp: ts_def)
      show ?thesis
      proof (cases "map_of option_string_actions [c0, hd ea]")
        case None
        then show ?thesis
          using ts Some os True
          by (subst optional_loop.simps) (auto simp: Let_def help_loop_exit_def ts_def)
      next
        case (Some act')
        then have act': "act' = HelpAction" by (auto dest: map_of_actions)
        have rec: "help_loop_exit (optional_loop arg_strings pattern i (Some HelpAction)
            [c0, hd ea] sep' ea' ts ex)"
          if "(case ea' of None \<Rightarrow> 0 | Some e \<Rightarrow> Suc (length e)) < Suc (length ea)" for sep' ea'
          using less.hyps [of ea' "[c0, hd ea]" ts sep'] that ts \<open>explicit_arg = Some ea\<close>
          by simp
        have ea: "ea \<noteq> []" using True by simp
        have r1: "help_loop_exit (optional_loop arg_strings pattern i (Some HelpAction)
            [c0, hd ea] None None ts ex)"
          by (rule rec) simp
        have r2: "help_loop_exit (optional_loop arg_strings pattern i (Some HelpAction)
            [c0, hd ea] (Some [61]) (Some (tl (tl ea))) ts ex)"
          by (rule rec) (use ea in simp)
        have r3: "help_loop_exit (optional_loop arg_strings pattern i (Some HelpAction)
            [c0, hd ea] (Some []) (Some (tl ea)) ts ex)"
          by (rule rec) (use ea in simp)
        have "optional_loop arg_strings pattern i (Some HelpAction) option_string sep
            explicit_arg action_tuples ex =
          (if tl ea = [] then optional_loop arg_strings pattern i (Some HelpAction)
              [c0, hd ea] None None ts ex
           else if hd (tl ea) = 61 then optional_loop arg_strings pattern i (Some HelpAction)
              [c0, hd ea] (Some [61]) (Some (tl (tl ea))) ts ex
           else optional_loop arg_strings pattern i (Some HelpAction)
              [c0, hd ea] (Some []) (Some (tl ea)) ts ex)"
          using \<open>explicit_arg = Some ea\<close> os True Some act'
          by (subst optional_loop.simps) (auto simp: Let_def ts_def)
        then show ?thesis
          using r1 r2 r3 by simp
      qed
    qed
  qed
qed

lemma consume_optional_cases:
  assumes t: "map_of osi (start_index st) = Some t"
    and good: "good_tuple t"
    and len: "start_index st < length args"
  shows "(fst t = None \<and> consume_optional args osi pattern st =
            Inr (st\<lparr>start_index := start_index st + 1,
                    extras := extras st @ [args ! start_index st]\<rparr>)) \<or>
         (fst t \<noteq> None \<and>
            (consume_optional args osi pattern st = Inl HelpExit \<or>
             (\<exists>m. consume_optional args osi pattern st = Inl (ArgumentError HelpAction m))))"
proof -
  obtain action os sep ea where tt: "t = (action, os, sep, ea)" by (cases t) auto
  show ?thesis
  proof (cases action)
    case None
    then show ?thesis
      using t tt len
      by (simp add: consume_optional_def) (subst optional_loop.simps, simp)
  next
    case (Some act)
    with good tt have act: "act = HelpAction" and os: "2 \<le> length os"
      by (simp_all add: good_tuple_def)
    have h: "help_loop_exit (optional_loop args pattern (start_index st) (Some HelpAction) os sep
        ea [] (extras st))"
      by (rule optional_loop_help [OF os]) simp
    show ?thesis
    proof (cases "optional_loop args pattern (start_index st) (Some HelpAction) os sep
        ea [] (extras st)")
      case (Inl e)
      then show ?thesis
        using h t tt Some act by (auto simp: consume_optional_def help_loop_exit_def)
    next
      case (Inr r)
      then show ?thesis
        using h t tt Some act
        by (cases r) (auto simp: consume_optional_def help_loop_exit_def take_actions_help)
    qed
  qed
qed

lemma parse_loop_exit:
  "\<not> int (start_index st) \<le> max_option_string_index osi \<Longrightarrow> parse_loop args osi pattern st = Inr st"
  by (subst parse_loop.simps) simp

lemma parse_loop_unfold:
  assumes "int (start_index st) \<le> max_option_string_index osi"
    and "filter (\<lambda>index. start_index st \<le> index) (map fst osi) = i # is"
  shows "parse_loop args osi pattern st =
     (let nxt = Min (set (i # is)) in
      case (if start_index st \<noteq> nxt then consume_positionals args pattern st else Inr st) of
        Inl e \<Rightarrow> Inl e
      | Inr st1 \<Rightarrow>
          if start_index st \<noteq> nxt \<and> start_index st < start_index st1
          then parse_loop args osi pattern st1
          else
            (let st2 =
               (if map_of osi (start_index st1) = None
                then st1\<lparr>extras := extras st1 @
                           take (nxt - start_index st1) (drop (start_index st1) args),
                         start_index := nxt\<rparr>
                else st1)
             in case consume_optional args osi pattern st2 of
                  Inl e \<Rightarrow> Inl e
                | Inr st3 \<Rightarrow> parse_loop args osi pattern st3))"
  by (subst parse_loop.simps) (simp only: assms if_True list.case)

lemma max_index_bound:
  "(j, t) \<in> set osi \<Longrightarrow> int j \<le> max_option_string_index osi"
proof -
  assume a: "(j, t) \<in> set osi"
  then have "osi \<noteq> []" by auto
  moreover have "j \<in> set (map fst osi)" using a by force
  then have "j \<le> Max (set (map fst osi))" by (intro Max_ge) auto
  ultimately show ?thesis by (simp add: max_option_string_index_def)
qed

lemma next_index:
  assumes "int s \<le> max_option_string_index osi"
  defines "K \<equiv> filter (\<lambda>index. s \<le> index) (map fst osi)"
  shows "K \<noteq> [] \<and> s \<le> Min (set K) \<and> (\<exists>t. map_of osi (Min (set K)) = Some t \<and> (Min (set K), t) \<in> set osi) \<and>
         (s \<noteq> Min (set K) \<longrightarrow> map_of osi s = None)"
proof -
  from assms(1) have ne: "osi \<noteq> []" by (auto simp: max_option_string_index_def split: if_splits)
  then have "Max (set (map fst osi)) \<in> set (map fst osi)" by (intro Max_in) auto
  moreover from assms(1) ne have "s \<le> Max (set (map fst osi))"
    by (simp add: max_option_string_index_def)
  ultimately have "Max (set (map fst osi)) \<in> set K" by (simp add: K_def)
  then have K: "K \<noteq> []" by auto
  then have inK: "Min (set K) \<in> set K" by (intro Min_in) auto
  then have ge: "s \<le> Min (set K)" and mem: "Min (set K) \<in> fst ` set osi"
    by (auto simp: K_def)
  from mem obtain t where t: "map_of osi (Min (set K)) = Some t"
    by (cases "map_of osi (Min (set K))") (auto simp: map_of_eq_None_iff)
  then have "(Min (set K), t) \<in> set osi" by (rule map_of_SomeD)
  moreover have "map_of osi s = None" if "s \<noteq> Min (set K)"
  proof (rule ccontr)
    assume "map_of osi s \<noteq> None"
    then have "s \<in> fst ` set osi" by (simp add: map_of_eq_None_iff)
    then have "s \<in> set K" by (auto simp: K_def)
    then have "Min (set K) \<le> s" by (intro Min_le) auto
    with ge that show False by simp
  qed
  ultimately show ?thesis using K ge t by blast
qed

lemma match_before_opt:
  assumes "pattern ! nxt = Opt" "nxt < length pattern" "s \<le> nxt"
  shows "s + match_optional_pattern (drop s pattern) \<le> nxt"
proof (rule ccontr)
  assume "\<not> ?thesis"
  then have gt: "nxt - s < match_optional_pattern (drop s pattern)" using assms(3) by simp
  from match_take [of "drop s pattern"]
  have le: "match_optional_pattern (drop s pattern) \<le> length (drop s pattern)"
    and no: "\<forall>x\<in>set (take (match_optional_pattern (drop s pattern)) (drop s pattern)). x \<noteq> Opt"
    by auto
  have "take (match_optional_pattern (drop s pattern)) (drop s pattern) ! (nxt - s) = pattern ! nxt"
    using gt assms(2,3) by simp
  moreover have "nxt - s < length (take (match_optional_pattern (drop s pattern)) (drop s pattern))"
    using gt le by simp
  ultimately have "pattern ! nxt \<in> set (take (match_optional_pattern (drop s pattern)) (drop s pattern))"
    by (metis nth_mem)
  with no assms(1) show False by auto
qed

lemma parse_loop_rejects:
  assumes wf: "well_formed args osi pattern"
  shows "set (positionals st) \<subseteq> {StoreName} \<Longrightarrow>
    int (start_index st) \<le> max_option_string_index osi \<or> extras st \<noteq> [] \<Longrightarrow>
    loop_rejects osi (parse_loop args osi pattern st)"
proof (induction "nat (max_option_string_index osi + 1 - int (start_index st))"
    arbitrary: st rule: less_induct)
  case less
  show ?case
  proof (cases "int (start_index st) \<le> max_option_string_index osi")
    case False
    with less.prems show ?thesis by (simp add: parse_loop_exit loop_rejects_def)
  next
    case True
    define K where "K = filter (\<lambda>index. start_index st \<le> index) (map fst osi)"
    define nxt where "nxt = Min (set K)"
    from next_index [OF True] obtain t where K: "K \<noteq> []" and ge: "start_index st \<le> nxt"
      and t: "map_of osi nxt = Some t" and tin: "(nxt, t) \<in> set osi"
      and none: "start_index st \<noteq> nxt \<longrightarrow> map_of osi (start_index st) = None"
      unfolding K_def [symmetric] nxt_def [symmetric] by blast
    from wf tin have nlen: "nxt < length args" and good: "good_tuple t"
      and plen: "nxt < length pattern" and opt: "pattern ! nxt = Opt"
      by (auto simp: well_formed_def)
    have nmax: "int nxt \<le> max_option_string_index osi" using tin by (rule max_index_bound)
    from K obtain i "is" where Kc: "K = i # is" by (cases K) auto
    have nxt': "Min (set (i # is)) = nxt" by (simp only: nxt_def Kc)
    have unfold: "parse_loop args osi pattern st =
      (case (if start_index st \<noteq> nxt then consume_positionals args pattern st else Inr st) of
        Inl e \<Rightarrow> Inl e
      | Inr st1 \<Rightarrow>
          if start_index st \<noteq> nxt \<and> start_index st < start_index st1
          then parse_loop args osi pattern st1
          else
            (let st2 =
               (if map_of osi (start_index st1) = None
                then st1\<lparr>extras := extras st1 @
                           take (nxt - start_index st1) (drop (start_index st1) args),
                         start_index := nxt\<rparr>
                else st1)
             in case consume_optional args osi pattern st2 of
                  Inl e \<Rightarrow> Inl e
                | Inr st3 \<Rightarrow> parse_loop args osi pattern st3))"
      using parse_loop_unfold [OF True, of i "is" args pattern] Kc
      unfolding K_def nxt' Let_def by simp
    have step: "loop_rejects osi (case consume_optional args osi pattern st2 of
        Inl e \<Rightarrow> Inl e | Inr st3 \<Rightarrow> parse_loop args osi pattern st3)"
      if s2: "start_index st2 = nxt" and p2: "set (positionals st2) \<subseteq> {StoreName}" for st2
    proof -
      from consume_optional_cases [of osi st2 t args pattern] s2 t good nlen
      consider (a) "consume_optional args osi pattern st2 =
            Inr (st2\<lparr>start_index := nxt + 1, extras := extras st2 @ [args ! nxt]\<rparr>)"
        | (b) "fst t \<noteq> None" "consume_optional args osi pattern st2 = Inl HelpExit"
        | (c) m where "consume_optional args osi pattern st2 = Inl (ArgumentError HelpAction m)"
        by auto
      then show ?thesis
      proof cases
        case a
        have "loop_rejects osi (parse_loop args osi pattern
            (st2\<lparr>start_index := nxt + 1, extras := extras st2 @ [args ! nxt]\<rparr>))"
        proof (rule less.hyps)
          show "nat (max_option_string_index osi + 1 -
              int (start_index (st2\<lparr>start_index := nxt + 1, extras := extras st2 @ [args ! nxt]\<rparr>)))
            < nat (max_option_string_index osi + 1 - int (start_index st))"
            using ge True by simp
        qed (use p2 in simp_all)
        with a show ?thesis by simp
      next
        case b
        with tin show ?thesis by (auto simp: loop_rejects_def)
      next
        case c
        then show ?thesis by (simp add: loop_rejects_def)
      qed
    qed
    show ?thesis
    proof (cases "start_index st = nxt")
      case True
      then have "parse_loop args osi pattern st =
          (case consume_optional args osi pattern st of
             Inl e \<Rightarrow> Inl e | Inr st3 \<Rightarrow> parse_loop args osi pattern st3)"
        using unfold t by simp
      with step [of st] True less.prems(1) show ?thesis by simp
    next
      case False
      from consume_positionals_props [OF less.prems(1), of args pattern] obtain st1 where
        st1: "consume_positionals args pattern st = Inr st1" and e1: "extras st1 = extras st"
        and p1: "set (positionals st1) \<subseteq> {StoreName}"
        and s1: "positionals st = [] \<longrightarrow> start_index st1 = start_index st"
        and s1': "positionals st \<noteq> [] \<longrightarrow>
          start_index st1 = start_index st + match_optional_pattern (drop (start_index st) pattern)"
        by blast
      show ?thesis
      proof (cases "start_index st < start_index st1")
        case lt: True
        have "start_index st1 \<le> nxt"
          using s1 s1' lt match_before_opt [OF opt plen ge] by (cases "positionals st = []") simp_all
        with nmax have "int (start_index st1) \<le> max_option_string_index osi" by simp
        then have "loop_rejects osi (parse_loop args osi pattern st1)"
          using lt True p1 by (intro less.hyps) simp_all
        moreover have "parse_loop args osi pattern st = parse_loop args osi pattern st1"
          using unfold False st1 lt by simp
        ultimately show ?thesis by simp
      next
        case nlt: False
        with consume_positionals_mono [OF st1] have eq: "start_index st1 = start_index st" by simp
        define st2 where "st2 = st1\<lparr>extras := extras st1 @
            take (nxt - start_index st1) (drop (start_index st1) args), start_index := nxt\<rparr>"
        have "parse_loop args osi pattern st =
            (case consume_optional args osi pattern st2 of
               Inl e \<Rightarrow> Inl e | Inr st3 \<Rightarrow> parse_loop args osi pattern st3)"
          using unfold False st1 nlt none eq by (simp add: st2_def)
        moreover have "start_index st2 = nxt" "set (positionals st2) \<subseteq> {StoreName}"
          using p1 by (simp_all add: st2_def)
        ultimately show ?thesis using step [of st2] by simp
      qed
    qed
  qed
qed

lemma classify:
  obtains osi p where "arg_string_pattern 0 args = Inr (osi, p)" "aligned args p"
    "well_formed args osi p"
proof -
  from arg_string_pattern_props [of 0 args] obtain osi p where
    1: "arg_string_pattern 0 args = Inr (osi, p)" and 2: "aligned args p"
    and 3: "\<forall>(j, t)\<in>set osi. 0 \<le> j \<and> j < 0 + length args \<and> good_tuple t \<and> p ! (j - 0) = Opt \<and>
        parse_optional (args ! (j - 0)) = Inr (Some t)"
    by blast
  from 2 have "length p = length args" by (rule aligned_length)
  with 3 have "well_formed args osi p" by (auto simp: well_formed_def)
  with 1 2 show ?thesis by (rule that)
qed

lemma private_parse_no_options:
  assumes "arg_string_pattern 0 args = Inr ([], p)"
  shows "private_parse_known_args args ns =
    Inr (ns\<lparr>name := get_values (take (match_optional_pattern p) args)\<rparr>,
         drop (match_optional_pattern p) args)"
proof -
  let ?st = "\<lparr>start_index = 0, positionals = [StoreName], namespace = ns, extras = []\<rparr>"
  have "parse_loop args [] p ?st = Inr ?st"
    by (rule parse_loop_exit) (simp add: max_option_string_index_def)
  moreover from consume_positionals_props [of ?st args p] obtain st1 where
    "consume_positionals args p ?st = Inr st1" "extras st1 = []"
    "start_index st1 = match_optional_pattern p"
    "namespace st1 = ns\<lparr>name := get_values (take (match_optional_pattern p) args)\<rparr>"
    by auto
  ultimately show ?thesis
    using assms by (simp add: private_parse_known_args_def)
qed

lemma private_parse_options:
  assumes osi: "arg_string_pattern 0 args = Inr (osi, p)" and wf: "well_formed args osi p"
    and ne: "osi \<noteq> []"
  shows "(private_parse_known_args args ns = Inl HelpExit \<and> (\<exists>(j, t)\<in>set osi. fst t \<noteq> None)) \<or>
    (\<exists>m. private_parse_known_args args ns = Inl (ArgumentError HelpAction m)) \<or>
    (\<exists>ns' ex. private_parse_known_args args ns = Inr (ns', ex) \<and> ex \<noteq> [])"
proof -
  let ?st = "\<lparr>start_index = 0, positionals = [StoreName], namespace = ns, extras = []\<rparr>"
  have "int (start_index ?st) \<le> max_option_string_index osi"
    using ne by (simp add: max_option_string_index_def)
  then have "loop_rejects osi (parse_loop args osi p ?st)"
    by (intro parse_loop_rejects [OF wf]) simp_all
  then consider (a) "parse_loop args osi p ?st = Inl HelpExit" "\<exists>(j, t)\<in>set osi. fst t \<noteq> None"
    | (b) m where "parse_loop args osi p ?st = Inl (ArgumentError HelpAction m)"
    | (c) st' where "parse_loop args osi p ?st = Inr st'" "extras st' \<noteq> []"
        "set (positionals st') \<subseteq> {StoreName}"
    unfolding loop_rejects_def by blast
  then show ?thesis
  proof cases
    case a
    then show ?thesis using osi by (simp add: private_parse_known_args_def)
  next
    case b
    then show ?thesis using osi by (simp add: private_parse_known_args_def)
  next
    case c
    from consume_positionals_props [OF c(3), of args p] obtain st1 where
      "consume_positionals args p st' = Inr st1" "extras st1 = extras st'"
      by blast
    with c show ?thesis using osi by (simp add: private_parse_known_args_def)
  qed
qed

lemma two_positionals_left_over:
  assumes "aligned args p" "2 \<le> length (filter (\<lambda>x. x = Arg) p)"
  shows "drop (match_optional_pattern p) args \<noteq> []"
proof
  assume "drop (match_optional_pattern p) args = []"
  then have "length args \<le> match_optional_pattern p" by simp
  with aligned_length [OF assms(1)] have "take (match_optional_pattern p) p = p" by simp
  with match_take [of p] assms(2) show False by simp
qed

lemma list_ex_unknown:
  "list_ex (\<lambda>(index, action, rest). action = None) osi \<Longrightarrow> osi \<noteq> []"
  by auto

lemma help_tuple:
  assumes "well_formed args osi p" "\<exists>(j, t)\<in>set osi. fst t \<noteq> None"
  shows "list_ex (\<lambda>(index, action, rest). action = Some HelpAction) osi"
proof -
  from assms(2) obtain j a os s e where in_osi: "(j, a, os, s, e) \<in> set osi" and "a \<noteq> None"
    by auto
  moreover from assms(1) in_osi have "good_tuple (a, os, s, e)" by (auto simp: well_formed_def)
  ultimately have "a = Some HelpAction" by (cases a) (auto simp: good_tuple_def)
  with in_osi show ?thesis by (auto simp: list_ex_iff)
qed

lemma private_parse_accepted:
  assumes "private_parse_known_args args ns = Inr (ns', [])"
  shows "ns' = ns\<lparr>name := get_values args\<rparr> \<and> (\<exists>s. get_values args = Str s) \<and>
    positional_count args \<le> 1 \<and> \<not> unknown_flag args \<and> \<not> help_flag args"
proof -
  obtain osi p where osi: "arg_string_pattern 0 args = Inr (osi, p)" and al: "aligned args p"
    and wf: "well_formed args osi p"
    by (rule classify)
  have e: "osi = []"
  proof (rule ccontr)
    assume "osi \<noteq> []"
    from private_parse_options [OF osi wf this, of ns] assms show False by auto
  qed
  from private_parse_no_options [of args p ns] osi e assms
  have ns': "ns' = ns\<lparr>name := get_values (take (match_optional_pattern p) args)\<rparr>"
    and d: "drop (match_optional_pattern p) args = []"
    by simp_all
  from d have t: "take (match_optional_pattern p) args = args" by simp
  from get_values_Str [OF al] t have "\<exists>s. get_values args = Str s" by simp
  moreover have "length (filter (\<lambda>x. x = Arg) p) \<le> 1"
    using two_positionals_left_over [OF al] d by (cases "2 \<le> length (filter (\<lambda>x. x = Arg) p)") auto
  ultimately show ?thesis
    using ns' t osi e by (simp add: positional_count_def unknown_flag_def help_flag_def)
qed

lemma private_parse_invalid:
  assumes "2 \<le> positional_count args \<or> unknown_flag args"
  shows "(private_parse_known_args args ns = Inl HelpExit \<and> help_flag args) \<or>
    (\<exists>m. private_parse_known_args args ns = Inl (ArgumentError HelpAction m)) \<or>
    (\<exists>ns' ex. private_parse_known_args args ns = Inr (ns', ex) \<and> ex \<noteq> [])"
proof -
  obtain osi p where osi: "arg_string_pattern 0 args = Inr (osi, p)" and al: "aligned args p"
    and wf: "well_formed args osi p"
    by (rule classify)
  show ?thesis
  proof (cases "osi = []")
    case True
    with assms osi have "2 \<le> length (filter (\<lambda>x. x = Arg) p)"
      by (simp add: positional_count_def unknown_flag_def)
    from two_positionals_left_over [OF al this] private_parse_no_options [of args p ns] osi True
    show ?thesis by simp
  next
    case False
    from private_parse_options [OF osi wf False, of ns] help_tuple [OF wf] osi
    show ?thesis by (auto simp: help_flag_def)
  qed
qed

lemma parse_args_cases:
  "parse_args sys_argv argv io =
     (case private_parse_known_args (case argv of None \<Rightarrow> drop 1 sys_argv | Some args \<Rightarrow> args)
             \<lparr>name = Str (str_of ''World'')\<rparr> of
        Inl (ArgumentError action message) \<Rightarrow> error (Some action) message io
      | Inl (Error message) \<Rightarrow> error None message io
      | Inl HelpExit \<Rightarrow> (SystemExit 0, io\<lparr>stdout := stdout io @ [HelpText]\<rparr>)
      | Inl (Uncaught e) \<Rightarrow> (Raise e, io)
      | Inr (ns', extras') \<Rightarrow>
          if extras' \<noteq> [] then error None (UnrecognizedArguments extras') io else (Return ns', io))"
  by (simp add: parse_args_def ArgumentParser_parse_args_def parse_known_args_def error_def
      split: sum.splits interrupt.splits)

lemma parse_args_accepted:
  assumes "parse_args sys_argv argv io = (Return ns, io')"
  shows "io' = io \<and>
    private_parse_known_args (case argv of None \<Rightarrow> drop 1 sys_argv | Some args \<Rightarrow> args)
      \<lparr>name = Str (str_of ''World'')\<rparr> = Inr (ns, [])"
  using assms unfolding parse_args_cases
  by (auto simp: error_def split: sum.splits interrupt.splits if_splits)

lemma main_Str:
  "parse_args sys_argv argv io = (Return ns, io) \<Longrightarrow> name ns = Str nm \<Longrightarrow>
   main sys_argv argv io =
     (Return 0, io\<lparr>stdout := stdout io @ [Text (str_of ''Hello, '' @ strip nm @ str_of ''!'' @ [10])]\<rparr>)"
  by (simp add: main_def greet_call_def)

lemma get_values_name:
  "get_values args = Str nm \<Longrightarrow>
   (case remove1 (str_of ''--'') args of [] \<Rightarrow> nm = str_of ''World'' | [a] \<Rightarrow> nm = a | _ \<Rightarrow> False)"
  by (auto simp: get_values_def Let_def split: if_splits list.splits)

lemma parse_args_one_name:
  "parse_args [prog, str_of ''Alice''] None io = (Return \<lparr>name = Str (str_of ''Alice'')\<rparr>, io)"
proof -
  have "arg_string_pattern 0 [str_of ''Alice''] = Inr ([], [Arg])"
    by (simp add: parse_optional_def str_of_def prefix_chars_def)
  from private_parse_no_options [OF this, of "\<lparr>name = Str (str_of ''World'')\<rparr>"]
  show ?thesis
    unfolding parse_args_cases
    by (simp add: match_optional_pattern_def get_values_def str_of_def)
qed

lemma parse_args_no_name:
  "parse_args [prog] None io = (Return \<lparr>name = Str (str_of ''World'')\<rparr>, io)"
proof -
  have "arg_string_pattern 0 [] = Inr ([], [])" by simp
  from private_parse_no_options [OF this, of "\<lparr>name = Str (str_of ''World'')\<rparr>"]
  show ?thesis
    unfolding parse_args_cases
    by (simp add: match_optional_pattern_def get_values_def)
qed

text \<open>The definitions to unfold when a concrete command line is run.\<close>

lemmas eval_defs =
  script_def main_def parse_args_def ArgumentParser_parse_args_def parse_known_args_def
  private_parse_known_args_def error_def parse_loop.simps optional_loop.simps
  consume_optional_def consume_positionals_def match_arguments_partial_def
  match_optional_pattern_def get_values_def max_option_string_index_def
  parse_optional_def get_option_tuples_def negative_number_matcher_def at_end_def
  isdecimal_def decimal_zeros_def startswith_def str_partition_def option_string_actions_def
  prefix_chars_def str_of_def greet_call_def strip_def lstrip_def rstrip_def isspace_def
  unknown_flag_def help_flag_def positional_count_def Let_def

section \<open>Claims about the greeter\<close>

text \<open>
  C1. Whenever the input is a non-empty core \<open>t\<close> that neither starts nor ends with
  whitespace, surrounded by any whitespace \<open>pre\<close> and \<open>post\<close>, the trimmed form is
  \<open>t\<close> and \<open>greet\<close> returns exactly \<open>"Hello, "\<close>, then \<open>t\<close>, then \<open>"!"\<close>; and
  \<open>greet("  Bob  ")\<close> is exactly \<open>"Hello, Bob!"\<close>.
\<close>

theorem greet_trimmed_nonempty:
  assumes "\<forall>c\<in>set pre. isspace c" and "\<forall>c\<in>set post. isspace c"
    and "t \<noteq> []" and "\<not> isspace (hd t)" and "\<not> isspace (last t)"
  shows "strip (pre @ t @ post) = t \<and>
    call_greet (Argument (Some (pre @ t @ post))) = str_of ''Hello, '' @ t @ str_of ''!'' \<and>
    call_greet (Argument (Some (str_of ''  Bob  ''))) = str_of ''Hello, Bob!''"
proof -
  have core: "strip (pre @ t @ post) = t"
    using assms by (intro strip_core) simp_all
  have "strip (str_of ''  '' @ str_of ''Bob'' @ str_of ''  '') = str_of ''Bob''"
    by (rule strip_core) (simp_all add: str_of_def isspace_def)
  then have "strip (str_of ''  Bob  '') = str_of ''Bob''"
    by (simp add: str_of_def)
  then have "greet (Some (str_of ''  Bob  '')) = str_of ''Hello, Bob!''"
    by (simp add: greet_Some) (simp add: str_of_def)
  with core show ?thesis
    by (simp add: greet_Some)
qed

theorem greet_trimmed_nonempty_witness:
  "strip (str_of ''  Bob  '') = str_of ''Bob'' \<and>
   call_greet (Argument (Some (str_of ''  Bob  ''))) = str_of ''Hello, Bob!''"
  using greet_trimmed_nonempty [of "str_of ''  ''" "str_of ''  ''" "str_of ''Bob''"]
  by (simp add: str_of_def isspace_def)

text \<open>
  C2. A call of \<open>greet\<close> without an argument returns exactly \<open>"Hello, World!"\<close>.
\<close>

theorem greet_no_argument:
  "call_greet NoArgument = str_of ''Hello, World!''"
  by (simp add: greet_Some strip_World) (simp add: str_of_def)

text \<open>
  C3. For every string passed explicitly that is empty or all whitespace, \<open>greet\<close>
  puts the empty trimmed string into the greeting and returns exactly \<open>"Hello, !"\<close>,
  which is not the greeting of \<open>"World"\<close>.
\<close>

theorem greet_blank:
  assumes "\<forall>c\<in>set s. isspace c"
  shows "strip s = [] \<and>
    call_greet (Argument (Some s)) = str_of ''Hello, !'' \<and>
    call_greet (Argument (Some s)) \<noteq> str_of ''Hello, World!''"
proof -
  have "strip s = []"
    using assms by (rule strip_all_whitespace)
  then show ?thesis
    by (simp add: greet_Some) (simp add: str_of_def)
qed

theorem greet_blank_witness:
  "call_greet (Argument (Some [])) = str_of ''Hello, !'' \<and>
   call_greet (Argument (Some (str_of ''   ''))) = str_of ''Hello, !''"
  using greet_blank [of "[]"] greet_blank [of "str_of ''   ''"]
  by (simp add: str_of_def isspace_def)

text \<open>
  C4, as stated, fails: the empty string is empty after trimming, and \<open>greet\<close> does
  not greet \<open>"World"\<close> for it.
\<close>

theorem greet_empty_not_World:
  "strip [] = [] \<and> greet (Some []) \<noteq> str_of ''Hello, World!''"
  by (simp add: greet_def strip_def lstrip_def rstrip_def str_of_def)

text \<open>
  C4, amended. The name defaults to \<open>"World"\<close> only when it is absent (the argument
  left out, or \<open>None\<close>): \<open>greet\<close> then returns \<open>"Hello, World!"\<close>. A string that is
  empty after trimming is used as it is, and \<open>greet\<close> returns \<open>"Hello, !"\<close>.
\<close>

theorem greet_default_only_when_absent:
  "call_greet NoArgument = str_of ''Hello, World!'' \<and>
   call_greet (Argument None) = str_of ''Hello, World!'' \<and>
   (strip s = [] \<longrightarrow> call_greet (Argument (Some s)) = str_of ''Hello, !'')"
  by (simp add: greet_Some greet_None strip_World) (simp add: str_of_def)

theorem greet_default_only_when_absent_witness:
  "strip (str_of '' '') = [] \<and> call_greet (Argument (Some (str_of '' ''))) = str_of ''Hello, !''"
  using greet_default_only_when_absent [of "str_of '' ''"]
  by (simp add: strip_def lstrip_def rstrip_def str_of_def isspace_def)

text \<open>
  C7. \<open>greet\<close> is total on its domain. Called with a string, with \<open>None\<close>, or without
  an argument (the parameter is then bound to the default), the call returns a string and
  raises nothing: the result is \<open>"Hello, "\<close>, the trimmed string (or \<open>World\<close> for
  \<open>None\<close>), and \<open>"!"\<close>. It has no effect: the output streams after the call are those
  before it. Outside the domain the call can raise (\<open>greet_call_list\<close>).
\<close>

theorem greet_total:
  "greet_call (Str s) io = (Inr (str_of ''Hello, '' @ strip s @ str_of ''!''), io) \<and>
   greet_call NoneValue io = (Inr (str_of ''Hello, World!''), io) \<and>
   greet_call default_name io = (Inr (str_of ''Hello, World!''), io)"
proof -
  have "greet_call (Str s) io = (Inr (str_of ''Hello, '' @ strip s @ str_of ''!''), io)"
    by (simp add: greet_call_def)
  moreover have "greet_call NoneValue io = (Inr (str_of ''Hello, World!''), io)"
    by (simp add: greet_call_def str_of_def)
  moreover have "greet_call default_name io = (Inr (str_of ''Hello, World!''), io)"
    by (simp add: greet_call_def default_name_def strip_World) (simp add: str_of_def)
  ultimately show ?thesis by simp
qed

text \<open>
  C8. \<open>greet\<close> is deterministic: two calls with the same input give the same outcome (the
  same string, or the same exception), whatever the state of the process at each of the
  two calls. The outcome depends on the argument and on nothing else.
\<close>

theorem greet_deterministic:
  "greet_call obj io1 = (r1, io1') \<Longrightarrow> greet_call obj io2 = (r2, io2') \<Longrightarrow> r1 = r2"
proof -
  assume 1: "greet_call obj io1 = (r1, io1')" and 2: "greet_call obj io2 = (r2, io2')"
  have "r1 = fst (greet_call obj io1)" using 1 by simp
  also have "\<dots> = fst (greet_call obj io2)" by (simp only: greet_call_result)
  also have "\<dots> = r2" using 2 by simp
  finally show ?thesis .
qed

theorem greet_deterministic_witness:
  "greet_call (Str (str_of ''Alice'')) \<lparr>stdout = [], stderr = []\<rparr> =
     (Inr (str_of ''Hello, Alice!''), \<lparr>stdout = [], stderr = []\<rparr>) \<and>
   greet_call (Str (str_of ''Alice'')) \<lparr>stdout = [Text (str_of ''Hello, Bob!'')], stderr = [Usage]\<rparr> =
     (Inr (str_of ''Hello, Alice!''), \<lparr>stdout = [Text (str_of ''Hello, Bob!'')], stderr = [Usage]\<rparr>) \<and>
   (Inr (str_of ''Hello, Alice!'') :: exc + pystr) = Inr (str_of ''Hello, Alice!'')"
  using greet_deterministic [of "Str (str_of ''Alice'')" "\<lparr>stdout = [], stderr = []\<rparr>"
      "Inr (str_of ''Hello, Alice!'')" "\<lparr>stdout = [], stderr = []\<rparr>"
      "\<lparr>stdout = [Text (str_of ''Hello, Bob!'')], stderr = [Usage]\<rparr>"
      "Inr (str_of ''Hello, Alice!'')" "\<lparr>stdout = [Text (str_of ''Hello, Bob!'')], stderr = [Usage]\<rparr>"]
  by (simp add: greet_call_def strip_def lstrip_def rstrip_def str_of_def isspace_def)

text \<open>
  C9. Passed the value \<open>None\<close>, \<open>greet\<close> returns exactly \<open>"Hello, World!"\<close>.
\<close>

theorem greet_explicit_None:
  "call_greet (Argument None) = str_of ''Hello, World!''"
  by (simp add: greet_None)

text \<open>
  C10. Trimming the input before the call changes nothing: \<open>greet(s.strip())\<close> equals
  \<open>greet(s)\<close> for every string \<open>s\<close>, and trimming is idempotent.
\<close>

theorem greet_pre_trimmed:
  "call_greet (Argument (Some (strip s))) = call_greet (Argument (Some s)) \<and>
   strip (strip s) = strip s"
  by (simp add: greet_Some strip_idem)

section \<open>Claims about the command line\<close>







end
